theory Spec2Isabelle
  imports Complex_Main
begin

section \<open>Python values, exceptions and effects\<close>

text \<open>
  The exceptions that \<^verbatim>\<open>EvolutionaryLLMs.py\<close> can raise: the failed \<^verbatim>\<open>assert\<close> of
  the constructor, the exceptions of the built-ins it calls (\<^verbatim>\<open>list.sort\<close>, attribute
  lookup, \<^verbatim>\<open>max\<close>, \<^verbatim>\<open>random.choice\<close>, \<^verbatim>\<open>random.sample\<close>), and whatever a strategy
  object raises. The source defines no exception class of its own and contains no
  \<^verbatim>\<open>try\<close>: every exception leaves the method that is running.
\<close>

datatype error =
    AssertionError
  | TypeError
  | AttributeError
  | ValueError
  | IndexError
  | Raised string  \<comment> \<open>an exception raised inside evaluate, mutate or breed\<close>

text \<open>
  Python is dynamically typed: \<^verbatim>\<open>kill_the_weak\<close> returns a slice of the list of
  \<^verbatim>\<open>(gene, fitness)\<close> tuples, and \<^verbatim>\<open>run_generations\<close> uses that list as the list of
  surviving genes. The objects that can sit in \<^verbatim>\<open>organisms\<close> are therefore genes and
  such tuples. Fitness values are compared only (\<^verbatim>\<open>max\<close>, \<^verbatim>\<open>>\<close>); they are modelled
  by the real numbers they denote.
\<close>

datatype 'g pyobj = Gene 'g | Tuple "'g pyobj" real

datatype 'g event =
    Progress_bar int
  | Printed nat
  | Evaluate_call "'g pyobj"
  | Mutate_call "'g pyobj"
  | Breed_call "'g pyobj" "'g pyobj"

text \<open>
  Everything outside the \<^verbatim>\<open>Population\<close> object: the state \<open>world\<close> that the strategy
  objects read and change, the outcomes of the module \<^verbatim>\<open>random\<close> as a tape of numbers
  read at \<open>cursor\<close>, and the \<open>trace\<close> of the calls made so far.
\<close>

record ('g, 'w) env =
  world :: 'w
  tape :: "nat \<Rightarrow> nat"
  cursor :: nat
  trace :: "'g event list"

text \<open>
  The attributes of a \<^verbatim>\<open>Population\<close>. The constructor assigns \<^verbatim>\<open>self.topk\<close>;
  \<^verbatim>\<open>kill_the_weak\<close> reads \<^verbatim>\<open>self.top_k\<close>, an attribute that exists only if a caller has
  assigned it from outside (\<open>None\<close>: absent), as a caller assigns
  \<^verbatim>\<open>mutate_probability\<close> to change it from 0.5.
\<close>

record ('g, 'w) population =
  num_organisms :: int
  evaluator :: "'g pyobj \<Rightarrow> 'w \<Rightarrow> (string + real) \<times> 'w"
  mutator :: "'g pyobj \<Rightarrow> 'w \<Rightarrow> (string + 'g pyobj) \<times> 'w"
  breeder :: "'g pyobj \<Rightarrow> 'g pyobj \<Rightarrow> 'w \<Rightarrow> (string + 'g pyobj) \<times> 'w"
  selection_criteria :: string
  topk :: int
  top_k :: "int option"
  organisms :: "'g pyobj list"
  best_gene :: "'g pyobj option"
  best_fitness :: real
  mutate_probability :: real

subsection \<open>Calls of the strategy objects\<close>

definition call_evaluate ::
  "('g, 'w) population \<Rightarrow> 'g pyobj \<Rightarrow> ('g, 'w) env \<Rightarrow> (error + real) \<times> ('g, 'w) env" where
  "call_evaluate p g s =
     (case evaluator p g (world s) of
        (Inl x, w) \<Rightarrow> (Inl (Raised x), s\<lparr>world := w, trace := trace s @ [Evaluate_call g]\<rparr>)
      | (Inr f, w) \<Rightarrow> (Inr f, s\<lparr>world := w, trace := trace s @ [Evaluate_call g]\<rparr>))"

definition call_mutate ::
  "('g, 'w) population \<Rightarrow> 'g pyobj \<Rightarrow> ('g, 'w) env \<Rightarrow> (error + 'g pyobj) \<times> ('g, 'w) env" where
  "call_mutate p g s =
     (case mutator p g (world s) of
        (Inl x, w) \<Rightarrow> (Inl (Raised x), s\<lparr>world := w, trace := trace s @ [Mutate_call g]\<rparr>)
      | (Inr c, w) \<Rightarrow> (Inr c, s\<lparr>world := w, trace := trace s @ [Mutate_call g]\<rparr>))"

definition call_breed ::
  "('g, 'w) population \<Rightarrow> 'g pyobj \<Rightarrow> 'g pyobj \<Rightarrow> ('g, 'w) env
     \<Rightarrow> (error + 'g pyobj) \<times> ('g, 'w) env" where
  "call_breed p a b s =
     (case breeder p a b (world s) of
        (Inl x, w) \<Rightarrow> (Inl (Raised x), s\<lparr>world := w, trace := trace s @ [Breed_call a b]\<rparr>)
      | (Inr c, w) \<Rightarrow> (Inr c, s\<lparr>world := w, trace := trace s @ [Breed_call a b]\<rparr>))"

subsection \<open>The built-ins the source calls\<close>

text \<open>
  \<^verbatim>\<open>random.random()\<close> returns a float \<open>k / 2^53\<close> with \<open>0 \<le> k < 2^53\<close>, so a value of
  \<open>[0, 1)\<close> that can be 0. \<^verbatim>\<open>random.choice\<close> raises IndexError on an empty sequence,
  \<^verbatim>\<open>random.sample(xs, 2)\<close> raises ValueError when \<open>xs\<close> has fewer than two elements
  and otherwise returns the elements at two different positions. Which value, position
  or pair comes out is read from the tape.
\<close>

definition random_random :: "('g, 'w) env \<Rightarrow> real \<times> ('g, 'w) env" where
  "random_random s =
     (real (tape s (cursor s) mod 2 ^ 53) / 2 ^ 53, s\<lparr>cursor := Suc (cursor s)\<rparr>)"

definition random_choice :: "'a list \<Rightarrow> ('g, 'w) env \<Rightarrow> (error + 'a) \<times> ('g, 'w) env" where
  "random_choice xs s =
     (if xs = [] then (Inl IndexError, s)
      else (Inr (xs ! (tape s (cursor s) mod length xs)), s\<lparr>cursor := Suc (cursor s)\<rparr>))"

definition sample_positions :: "nat \<Rightarrow> nat \<Rightarrow> nat \<Rightarrow> nat \<times> nat" where
  "sample_positions n a b =
     (let i = a mod n; j = b mod (n - 1) in (i, if j < i then j else Suc j))"

definition random_sample_2 ::
  "'a list \<Rightarrow> ('g, 'w) env \<Rightarrow> (error + 'a \<times> 'a) \<times> ('g, 'w) env" where
  "random_sample_2 xs s =
     (if length xs < 2 then (Inl ValueError, s)
      else
        (case sample_positions (length xs) (tape s (cursor s)) (tape s (Suc (cursor s))) of
           (i, j) \<Rightarrow> (Inr (xs ! i, xs ! j), s\<lparr>cursor := cursor s + 2\<rparr>)))"

text \<open>
  \<^verbatim>\<open>max(xs, key=f)\<close> raises ValueError on an empty list and otherwise returns the
  first element whose key is maximal: the running maximum is replaced only by an element
  with a strictly greater key.
\<close>

fun max_by_key :: "('a \<Rightarrow> real) \<Rightarrow> 'a list \<Rightarrow> error + 'a" where
  "max_by_key key [] = Inl ValueError"
| "max_by_key key (x # xs) = Inr (foldl (\<lambda>best y. if key y > key best then y else best) x xs)"

text \<open>
  \<^verbatim>\<open>list.sort(*, key=None, reverse=False)\<close> takes keyword arguments only. A call that
  passes the key function by position raises TypeError before the list is touched; a call
  that passes it as \<^verbatim>\<open>key=\<close> sorts the list, stably and ascending.
\<close>

datatype 'a sort_argument = Positional "'a \<Rightarrow> real" | Keyword_key "'a \<Rightarrow> real"

fun list_sort :: "'a sort_argument \<Rightarrow> 'a list \<Rightarrow> error + 'a list" where
  "list_sort (Positional f) xs = Inl TypeError"
| "list_sort (Keyword_key f) xs = Inr (sort_key f xs)"

text \<open>The slice \<^verbatim>\<open>xs[:k]\<close>; a negative \<open>k\<close> counts from the end.\<close>

definition slice_to :: "int \<Rightarrow> 'a list \<Rightarrow> 'a list" where
  "slice_to k xs = (if 0 \<le> k then take (nat k) xs else take (length xs - nat (- k)) xs)"

section \<open>The class Population\<close>

subsection \<open>\<^verbatim>\<open>init_genes\<close> and the constructor\<close>

text \<open>The list comprehension of \<^verbatim>\<open>init_genes\<close>: \<open>n\<close> calls of mutate on the same gene.\<close>

fun mutate_times ::
  "('g, 'w) population \<Rightarrow> 'g pyobj \<Rightarrow> nat \<Rightarrow> ('g, 'w) env
     \<Rightarrow> (error + 'g pyobj list) \<times> ('g, 'w) env" where
  "mutate_times p g 0 s = (Inr [], s)"
| "mutate_times p g (Suc n) s =
     (case call_mutate p g s of
        (Inl e, s') \<Rightarrow> (Inl e, s')
      | (Inr c, s') \<Rightarrow>
          (case mutate_times p g n s' of
             (Inl e, s'') \<Rightarrow> (Inl e, s'')
           | (Inr cs, s'') \<Rightarrow> (Inr (c # cs), s'')))"

text \<open>
  \<^verbatim>\<open>range(n)\<close> is empty for \<open>n \<le> 0\<close>. When a call of mutate raises, the assignment to
  \<^verbatim>\<open>self.organisms\<close> does not happen: the population is as it was.
\<close>

definition init_genes ::
  "('g, 'w) population \<Rightarrow> 'g pyobj \<Rightarrow> ('g, 'w) env
     \<Rightarrow> (error + ('g, 'w) population) \<times> ('g, 'w) env" where
  "init_genes p initial_gene s =
     (case mutate_times p initial_gene (nat (num_organisms p)) s of
        (Inl e, s') \<Rightarrow> (Inl e, s')
      | (Inr gs, s') \<Rightarrow> (Inr (p\<lparr>organisms := gs\<rparr>), s'))"

text \<open>
  The constructor. Its only check is the \<^verbatim>\<open>assert top_k <= num_organisms\<close>. (The
  three attributes that the source assigns after \<^verbatim>\<open>init_genes\<close> are not read by it,
  so the record is built at once.) The float literal \<^verbatim>\<open>1e99\<close> denotes the double
  nearest to \<open>10^99\<close>, which is this integer.
\<close>

definition float_1e99 :: real where
  "float_1e99 =
     999999999999999967336168804116691273849533185806555472917961779471295845921727862608739868455469056"

definition Population_init ::
  "int \<Rightarrow> 'g pyobj
     \<Rightarrow> ('g pyobj \<Rightarrow> 'w \<Rightarrow> (string + real) \<times> 'w)
     \<Rightarrow> ('g pyobj \<Rightarrow> 'w \<Rightarrow> (string + 'g pyobj) \<times> 'w)
     \<Rightarrow> ('g pyobj \<Rightarrow> 'g pyobj \<Rightarrow> 'w \<Rightarrow> (string + 'g pyobj) \<times> 'w)
     \<Rightarrow> string \<Rightarrow> int \<Rightarrow> ('g, 'w) env
     \<Rightarrow> (error + ('g, 'w) population) \<times> ('g, 'w) env" where
  "Population_init n initial_gene ev mu br criteria k s =
     (if \<not> k \<le> n then (Inl AssertionError, s)
      else
        init_genes
          \<lparr>num_organisms = n, evaluator = ev, mutator = mu, breeder = br,
           selection_criteria = criteria, topk = k, top_k = None, organisms = [],
           best_gene = None, best_fitness = - float_1e99, mutate_probability = 1 / 2\<rparr>
          initial_gene s)"

subsection \<open>\<^verbatim>\<open>kill_the_weak\<close>\<close>

text \<open>
  \<^verbatim>\<open>genes.sort(lambda x: x[1])\<close> passes the key function by position;
  \<^verbatim>\<open>genes[: self.top_k]\<close> reads the attribute \<^verbatim>\<open>top_k\<close>.
\<close>

definition kill_the_weak ::
  "('g, 'w) population \<Rightarrow> ('g pyobj \<times> real) list \<Rightarrow> error + ('g pyobj \<times> real) list" where
  "kill_the_weak p genes =
     (case list_sort (Positional snd) genes of
        Inl e \<Rightarrow> Inl e
      | Inr sorted_genes \<Rightarrow>
          (case top_k p of
             None \<Rightarrow> Inl AttributeError
           | Some k \<Rightarrow> Inr (slice_to k sorted_genes)))"

subsection \<open>\<^verbatim>\<open>run_generations\<close>\<close>

text \<open>The list comprehension that evaluates every organism, in order.\<close>

fun evaluate_all ::
  "('g, 'w) population \<Rightarrow> 'g pyobj list \<Rightarrow> ('g, 'w) env
     \<Rightarrow> (error + ('g pyobj \<times> real) list) \<times> ('g, 'w) env" where
  "evaluate_all p [] s = (Inr [], s)"
| "evaluate_all p (g # gs) s =
     (case call_evaluate p g s of
        (Inl e, s') \<Rightarrow> (Inl e, s')
      | (Inr f, s') \<Rightarrow>
          (case evaluate_all p gs s' of
             (Inl e, s'') \<Rightarrow> (Inl e, s'')
           | (Inr fs, s'') \<Rightarrow> (Inr ((g, f) # fs), s'')))"

text \<open>
  One pass through the body of the refill loop: the list \<^verbatim>\<open>surviving_genes\<close> is the
  one that the loop appends to, and the one that choice and sample draw from.
\<close>

definition refill_step ::
  "('g, 'w) population \<Rightarrow> 'g pyobj list \<Rightarrow> ('g, 'w) env
     \<Rightarrow> (error + 'g pyobj list) \<times> ('g, 'w) env" where
  "refill_step p surviving_genes s =
     (case random_random s of
        (u, s1) \<Rightarrow>
          if u \<le> mutate_probability p then
            (case random_choice surviving_genes s1 of
               (Inl e, s2) \<Rightarrow> (Inl e, s2)
             | (Inr random_gene, s2) \<Rightarrow>
                 (case call_mutate p random_gene s2 of
                    (Inl e, s3) \<Rightarrow> (Inl e, s3)
                  | (Inr child, s3) \<Rightarrow> (Inr (surviving_genes @ [child]), s3)))
          else
            (case random_sample_2 surviving_genes s1 of
               (Inl e, s2) \<Rightarrow> (Inl e, s2)
             | (Inr (parent_1, parent_2), s2) \<Rightarrow>
                 (case call_breed p parent_1 parent_2 s2 of
                    (Inl e, s3) \<Rightarrow> (Inl e, s3)
                  | (Inr child, s3) \<Rightarrow> (Inr (surviving_genes @ [child]), s3))))"

text \<open>The refill loop, \<^verbatim>\<open>for _ in range(self.num_organisms - self.topk)\<close>.\<close>

fun refill_loop ::
  "('g, 'w) population \<Rightarrow> nat \<Rightarrow> 'g pyobj list \<Rightarrow> ('g, 'w) env
     \<Rightarrow> (error + 'g pyobj list) \<times> ('g, 'w) env" where
  "refill_loop p 0 surviving_genes s = (Inr surviving_genes, s)"
| "refill_loop p (Suc n) surviving_genes s =
     (case refill_step p surviving_genes s of
        (Inl e, s') \<Rightarrow> (Inl e, s')
      | (Inr surviving_genes', s') \<Rightarrow> refill_loop p n surviving_genes' s')"

definition refill ::
  "('g, 'w) population \<Rightarrow> 'g pyobj list \<Rightarrow> ('g, 'w) env
     \<Rightarrow> (error + 'g pyobj list) \<times> ('g, 'w) env" where
  "refill p surviving_genes s =
     refill_loop p (nat (num_organisms p - topk p)) surviving_genes s"

text \<open>
  The update of the best gene: the attributes change only when the best fitness of the
  generation is strictly greater than the stored one.
\<close>

definition track_best ::
  "('g, 'w) population \<Rightarrow> 'g pyobj \<times> real \<Rightarrow> ('g, 'w) population" where
  "track_best p best =
     (case best of
        (best_gene_in_generation, best_generation_fitness) \<Rightarrow>
          if best_generation_fitness > best_fitness p
          then p\<lparr>best_fitness := best_generation_fitness,
                 best_gene := Some best_gene_in_generation\<rparr>
          else p)"

text \<open>
  The body of the generation loop. Whatever is raised leaves the loop at once; the
  population keeps the assignments made before.
\<close>

definition generation ::
  "('g, 'w) population \<Rightarrow> nat \<Rightarrow> ('g, 'w) env
     \<Rightarrow> (error + unit) \<times> ('g, 'w) population \<times> ('g, 'w) env" where
  "generation p generation_num s =
     (case evaluate_all p (organisms p) (s\<lparr>trace := trace s @ [Printed generation_num]\<rparr>) of
        (Inl e, s1) \<Rightarrow> (Inl e, p, s1)
      | (Inr gene_fitnesses, s1) \<Rightarrow>
          (case max_by_key snd gene_fitnesses of
             Inl e \<Rightarrow> (Inl e, p, s1)
           | Inr best \<Rightarrow>
               (let p1 = track_best p best in
                case kill_the_weak p1 gene_fitnesses of
                  Inl e \<Rightarrow> (Inl e, p1, s1)
                | Inr survivors \<Rightarrow>
                    (case refill p1 (map (\<lambda>(g, f). Tuple g f) survivors) s1 of
                       (Inl e, s2) \<Rightarrow> (Inl e, p1, s2)
                     | (Inr surviving_genes, s2) \<Rightarrow>
                         (Inr (), p1\<lparr>organisms := surviving_genes\<rparr>, s2)))))"

fun generation_loop ::
  "('g, 'w) population \<Rightarrow> nat list \<Rightarrow> ('g, 'w) env
     \<Rightarrow> (error + unit) \<times> ('g, 'w) population \<times> ('g, 'w) env" where
  "generation_loop p [] s = (Inr (), p, s)"
| "generation_loop p (generation_num # rest) s =
     (case generation p generation_num s of
        (Inl e, p', s') \<Rightarrow> (Inl e, p', s')
      | (Inr u, p', s') \<Rightarrow> generation_loop p' rest s')"

text \<open>
  \<^verbatim>\<open>run_generations\<close>: \<^verbatim>\<open>range(num_generations)\<close> is empty for a count below 1;
  \<^verbatim>\<open>tqdm\<close> wraps the range in a progress bar and yields the same numbers.
\<close>

definition run_generations ::
  "('g, 'w) population \<Rightarrow> int \<Rightarrow> bool \<Rightarrow> ('g, 'w) env
     \<Rightarrow> (error + 'g pyobj list) \<times> ('g, 'w) population \<times> ('g, 'w) env" where
  "run_generations p num_generations show_progress s =
     (case generation_loop p [0 ..< nat num_generations]
             (if show_progress then s\<lparr>trace := trace s @ [Progress_bar num_generations]\<rparr>
              else s) of
        (Inl e, p', s') \<Rightarrow> (Inl e, p', s')
      | (Inr u, p', s') \<Rightarrow> (Inr (organisms p'), p', s'))"

section \<open>Stub strategies and example inputs\<close>

text \<open>
  The strategies of the spec's scenario, over genes that are strings: the evaluator
  scores a gene by its length, mutate appends \<open>m\<close>, breed concatenates the parents. The
  world state counts the strategy calls. A tuple is not a string: mutate and breed raise
  on it, and its length is 2.
\<close>

definition length_evaluator :: "string pyobj \<Rightarrow> nat \<Rightarrow> (string + real) \<times> nat" where
  "length_evaluator g calls =
     (case g of
        Gene x \<Rightarrow> (Inr (real (length x)), Suc calls)
      | Tuple a f \<Rightarrow> (Inr 2, Suc calls))"

text \<open>An evaluator that gives up on genes of more than two characters.\<close>

definition timeout_evaluator :: "string pyobj \<Rightarrow> nat \<Rightarrow> (string + real) \<times> nat" where
  "timeout_evaluator g calls =
     (case g of
        Gene x \<Rightarrow>
          if 2 < length x then (Inl ''timeout'', Suc calls)
          else (Inr (real (length x)), Suc calls)
      | Tuple a f \<Rightarrow> (Inr 2, Suc calls))"

definition append_m_mutator :: "string pyobj \<Rightarrow> nat \<Rightarrow> (string + string pyobj) \<times> nat" where
  "append_m_mutator g calls =
     (case g of
        Gene x \<Rightarrow> (Inr (Gene (x @ ''m'')), Suc calls)
      | Tuple a f \<Rightarrow> (Inl ''TypeError'', Suc calls))"

definition concat_breeder ::
  "string pyobj \<Rightarrow> string pyobj \<Rightarrow> nat \<Rightarrow> (string + string pyobj) \<times> nat" where
  "concat_breeder a b calls =
     (case a of
        Gene x \<Rightarrow>
          (case b of
             Gene y \<Rightarrow> (Inr (Gene (x @ y)), Suc calls)
           | Tuple c f \<Rightarrow> (Inl ''TypeError'', Suc calls))
      | Tuple c f \<Rightarrow> (Inl ''TypeError'', Suc calls))"

text \<open>
  A mutator that depends on the state of its world: its \<open>k\<close>-th call appends \<open>k\<close>
  letters.
\<close>

definition counting_mutator :: "string pyobj \<Rightarrow> nat \<Rightarrow> (string + string pyobj) \<times> nat" where
  "counting_mutator g calls =
     (case g of
        Gene x \<Rightarrow> (Inr (Gene (x @ replicate (Suc calls) CHR ''m'')), Suc calls)
      | Tuple a f \<Rightarrow> (Inl ''TypeError'', Suc calls))"

text \<open>
  A population as the constructor leaves it, with the given organisms and with
  \<^verbatim>\<open>mutate_probability\<close> as a caller has set it.
\<close>

definition example_population ::
  "int \<Rightarrow> int \<Rightarrow> real \<Rightarrow> string pyobj list \<Rightarrow> (string, nat) population" where
  "example_population n k probability gs =
     \<lparr>num_organisms = n, evaluator = length_evaluator, mutator = append_m_mutator,
      breeder = concat_breeder, selection_criteria = ''topk'', topk = k, top_k = None,
      organisms = gs, best_gene = None, best_fitness = - float_1e99,
      mutate_probability = probability\<rparr>"

text \<open>An environment whose random outcomes are the given numbers, then zeros.\<close>

definition example_env :: "nat list \<Rightarrow> (string, nat) env" where
  "example_env draws =
     \<lparr>world = 0, tape = (\<lambda>i. if i < length draws then draws ! i else 0), cursor = 0,
      trace = []\<rparr>"

section \<open>Survivor selection\<close>

text \<open>
  C1. Survivor selection should keep the \<open>topk\<close> candidates with the highest fitness.
  The code does not: \<^verbatim>\<open>kill_the_weak\<close> raises TypeError on every input, since
  \<^verbatim>\<open>list.sort\<close> takes no positional argument.
\<close>

theorem kill_the_weak_raises: "kill_the_weak p genes = Inl TypeError"
  by (simp add: kill_the_weak_def)

text \<open>
  Had the key been passed as \<^verbatim>\<open>key=\<close>, the slice would still start at the head of an
  ascending sort, where the lowest score is.
\<close>

lemma ascending_sort_starts_with_lowest:
  "map_sum id (slice_to 1)
     (list_sort (Keyword_key snd) [(Gene ''b'', 2), (Gene ''a'', 1), (Gene ''c'', 3)])
     = Inr [(Gene ''a'', 1)]"
  by (simp add: slice_to_def)


section \<open>What a generation does\<close>

text \<open>
  Since \<^verbatim>\<open>kill_the_weak\<close> raises, the body of the generation loop never reaches the
  refill loop: it evaluates the organisms, updates the best gene and leaves with an
  exception.
\<close>

lemma generation_unfold:
  "generation p i s =
     (case evaluate_all p (organisms p) (s\<lparr>trace := trace s @ [Printed i]\<rparr>) of
        (Inl e, s1) \<Rightarrow> (Inl e, p, s1)
      | (Inr gene_fitnesses, s1) \<Rightarrow>
          (case max_by_key snd gene_fitnesses of
             Inl e \<Rightarrow> (Inl e, p, s1)
           | Inr best \<Rightarrow> (Inl TypeError, track_best p best, s1)))"
  by (simp add: generation_def kill_the_weak_def split: prod.splits sum.splits)

lemma generation_raises: "\<exists>e. fst (generation p i s) = Inl e"
  by (simp add: generation_unfold split: prod.splits sum.splits)

lemma track_best_frame:
  "organisms (track_best p b) = organisms p"
  "num_organisms (track_best p b) = num_organisms p"
  "topk (track_best p b) = topk p"
  by (simp_all add: track_best_def split: prod.splits)

lemma track_best_mono: "best_fitness p \<le> best_fitness (track_best p b)"
  by (simp add: track_best_def split: prod.splits)

lemma generation_organisms:
  "generation p i s = (r, p', s') \<Longrightarrow>
     organisms p' = organisms p \<and> num_organisms p' = num_organisms p"
  by (auto simp: generation_unfold track_best_frame split: prod.splits sum.splits)

lemma generation_best_mono:
  "generation p i s = (r, p', s') \<Longrightarrow> best_fitness p \<le> best_fitness p'"
  by (auto simp: generation_def track_best_mono Let_def split: prod.splits sum.splits)

lemma generation_loop_best_mono:
  "generation_loop p is s = (r, p', s') \<Longrightarrow> best_fitness p \<le> best_fitness p'"
proof (induction "is" arbitrary: p s)
  case Nil
  then show ?case by simp
next
  case (Cons i "is")
  obtain r1 p1 s1 where g: "generation p i s = (r1, p1, s1)"
    by (cases "generation p i s") auto
  have m: "best_fitness p \<le> best_fitness p1"
    using g by (rule generation_best_mono)
  show ?case
  proof (cases r1)
    case (Inl e)
    with Cons.prems g have "p' = p1" by simp
    with m show ?thesis by simp
  next
    case (Inr u)
    with Cons.prems g have "generation_loop p1 is s1 = (r, p', s')" by simp
    then have "best_fitness p1 \<le> best_fitness p'" by (rule Cons.IH)
    with m show ?thesis by simp
  qed
qed

lemma generation_loop_organisms:
  "generation_loop p is s = (r, p', s') \<Longrightarrow>
     organisms p' = organisms p \<and> num_organisms p' = num_organisms p"
proof (cases "is")
  case Nil
  assume "generation_loop p is s = (r, p', s')"
  with Nil show ?thesis by simp
next
  case (Cons i rest)
  assume a: "generation_loop p is s = (r, p', s')"
  obtain r1 p1 s1 where g: "generation p i s = (r1, p1, s1)"
    by (cases "generation p i s") auto
  from generation_raises [of p i s] g obtain e where "r1 = Inl e" by auto
  with a Cons g have "p' = p1" by simp
  with generation_organisms [OF g] show ?thesis by simp
qed

lemma run_generations_best_mono:
  "run_generations p n sp s = (r, p', s') \<Longrightarrow> best_fitness p \<le> best_fitness p'"
  by (auto simp: run_generations_def split: prod.splits sum.splits
           dest: generation_loop_best_mono)

lemma run_generations_organisms:
  "run_generations p n sp s = (r, p', s') \<Longrightarrow>
     organisms p' = organisms p \<and> num_organisms p' = num_organisms p"
  by (auto simp: run_generations_def split: prod.splits sum.splits
           dest: generation_loop_organisms)

section \<open>The refill loop as it is written\<close>

text \<open>
  The lemmas on \<^verbatim>\<open>refill_step\<close> and \<^verbatim>\<open>refill_loop\<close> describe the loop of lines 91 to 97
  on a list of genes given to it. No call of \<^verbatim>\<open>run_generations\<close> gets there.
\<close>

lemma refill_step_length:
  "refill_step p sg s = (Inr out, s') \<Longrightarrow> length out = Suc (length sg)"
  by (auto simp: refill_step_def split: prod.splits sum.splits if_splits)

lemma refill_loop_length:
  "refill_loop p n sg s = (Inr out, s') \<Longrightarrow> length out = length sg + n"
proof (induction n arbitrary: sg s)
  case 0
  then show ?case by simp
next
  case (Suc n)
  obtain r1 s1 where st: "refill_step p sg s = (r1, s1)"
    by (cases "refill_step p sg s") auto
  show ?case
  proof (cases r1)
    case (Inl e)
    with Suc.prems st show ?thesis by simp
  next
    case (Inr sg1)
    with Suc.prems st have "refill_loop p n sg1 s1 = (Inr out, s')" by simp
    then have "length out = length sg1 + n" by (rule Suc.IH)
    moreover from st Inr have "length sg1 = Suc (length sg)"
      by (simp add: refill_step_length)
    ultimately show ?thesis by simp
  qed
qed

text \<open>Unfolding the loops at a numeral, and the definitions that examples evaluate.\<close>

lemma refill_loop_unfold:
  "0 < n \<Longrightarrow> refill_loop p n sg s =
     (case refill_step p sg s of
        (Inl e, s') \<Rightarrow> (Inl e, s')
      | (Inr sg', s') \<Rightarrow> refill_loop p (n - 1) sg' s')"
  by (cases n) (auto split: prod.splits sum.splits)

lemma mutate_times_unfold:
  "0 < n \<Longrightarrow> mutate_times p g n s =
     (case call_mutate p g s of
        (Inl e, s') \<Rightarrow> (Inl e, s')
      | (Inr c, s') \<Rightarrow>
          (case mutate_times p g (n - 1) s' of
             (Inl e, s'') \<Rightarrow> (Inl e, s'')
           | (Inr cs, s'') \<Rightarrow> (Inr (c # cs), s'')))"
  by (cases n) (auto split: prod.splits sum.splits)

lemmas example_defs =
  float_1e99_def example_population_def example_env_def length_evaluator_def timeout_evaluator_def
  append_m_mutator_def counting_mutator_def concat_breeder_def

lemmas step_defs =
  refill_def refill_loop_unfold refill_step_def random_random_def random_choice_def
  random_sample_2_def sample_positions_def call_mutate_def call_breed_def

section \<open>The best gene\<close>

lemma foldl_max_by_key:
  "foldl (\<lambda>best y. if key y > key best then y else best) x xs \<in> set (x # xs) \<and>
   (\<forall>y \<in> set (x # xs).
      (key y :: real) \<le> key (foldl (\<lambda>best y. if key y > key best then y else best) x xs))"
proof (induction xs arbitrary: x)
  case Nil
  then show ?case by simp
next
  case (Cons a xs)
  show ?case
    using Cons.IH [of "if key a > key x then a else x"]
    by (auto split: if_splits)
qed

lemma max_by_key_Max:
  assumes "max_by_key key xs = Inr m"
  shows "m \<in> set xs \<and> key m = Max (key ` set xs)"
proof (cases xs)
  case Nil
  with assms show ?thesis by simp
next
  case (Cons x rest)
  with assms have m: "m = foldl (\<lambda>best y. if key y > key best then y else best) x rest"
    by simp
  from foldl_max_by_key [of key x rest] m Cons
  have "m \<in> set xs \<and> (\<forall>y \<in> set xs. key y \<le> key m)"
    by simp
  then have a: "m \<in> set xs" and b: "\<forall>y \<in> set xs. key y \<le> key m"
    by blast+
  have "Max (key ` set xs) = key m"
    by (rule Max_eqI) (use a b in auto)
  with a show ?thesis by simp
qed

lemma generation_best_cases:
  assumes "generation q i t = (r, q', t')"
  shows "(best_fitness q' = best_fitness q \<and> best_gene q' = best_gene q) \<or>
         (\<exists>fits t1 g.
            evaluate_all q (organisms q) (t\<lparr>trace := trace t @ [Printed i]\<rparr>) = (Inr fits, t1) \<and>
            (g, best_fitness q') \<in> set fits \<and>
            best_fitness q' = Max (snd ` set fits) \<and>
            best_gene q' = Some g \<and>
            best_fitness q < best_fitness q')"
proof -
  obtain r1 t1 where ev: "evaluate_all q (organisms q) (t\<lparr>trace := trace t @ [Printed i]\<rparr>) = (r1, t1)"
    by (cases "evaluate_all q (organisms q) (t\<lparr>trace := trace t @ [Printed i]\<rparr>)") auto
  show ?thesis
  proof (cases r1)
    case (Inl e)
    with assms ev have "q' = q" by (simp add: generation_unfold)
    then show ?thesis by simp
  next
    case fits: (Inr fits)
    show ?thesis
    proof (cases "max_by_key snd fits")
      case (Inl e)
      with assms ev fits have "q' = q" by (simp add: generation_unfold)
      then show ?thesis by simp
    next
      case (Inr best)
      obtain g f where best: "best = (g, f)" by (cases best) auto
      from assms ev fits Inr have q': "q' = track_best q (g, f)"
        by (simp add: generation_unfold best)
      from max_by_key_Max [OF Inr] best
      have "(g, f) \<in> set fits \<and> f = Max (snd ` set fits)" by auto
      then have mem: "(g, f) \<in> set fits" and mx: "f = Max (snd ` set fits)" by blast+
      show ?thesis
      proof (cases "f > best_fitness q")
        case True
        with q' have "best_fitness q' = f" "best_gene q' = Some g"
          by (simp_all add: track_best_def)
        with True mem mx ev fits show ?thesis by auto
      next
        case False
        with q' have "q' = q" by (simp add: track_best_def)
        then show ?thesis by simp
      qed
    qed
  qed
qed

text \<open>
  C3. \<^verbatim>\<open>best_fitness\<close> never decreases, over one call of \<^verbatim>\<open>run_generations\<close> and
  over successive calls on the same population; a generation replaces it (and
  \<^verbatim>\<open>best_gene\<close>) only by the maximal fitness of that generation, and only when that
  maximum is strictly greater than the stored value.
\<close>

theorem best_fitness_never_decreases:
  assumes "run_generations p n sp s = (r, p1, s1)"
    and "run_generations p1 n' sp' s1' = (r', p2, s2)"
    and "generation q i t = (r'', q', t')"
  shows "best_fitness p \<le> best_fitness p1 \<and> best_fitness p1 \<le> best_fitness p2 \<and>
         ((best_fitness q' = best_fitness q \<and> best_gene q' = best_gene q) \<or>
          (\<exists>fits t1 g.
             evaluate_all q (organisms q) (t\<lparr>trace := trace t @ [Printed i]\<rparr>) = (Inr fits, t1) \<and>
             (g, best_fitness q') \<in> set fits \<and>
             best_fitness q' = Max (snd ` set fits) \<and>
             best_gene q' = Some g \<and>
             best_fitness q < best_fitness q'))"
  using run_generations_best_mono [OF assms(1)] run_generations_best_mono [OF assms(2)]
    generation_best_cases [OF assms(3)]
  by blast

section \<open>Running no generation\<close>

text \<open>
  C10. \<^verbatim>\<open>run_generations(0)\<close> returns the organisms and changes nothing: the
  population and the world of the strategies are as before, and no strategy is called.
  With \<^verbatim>\<open>show_progress\<close> the only effect is the progress bar.
\<close>

theorem run_zero_generations:
  "run_generations p 0 False s = (Inr (organisms p), p, s) \<and>
   run_generations p 0 True s = (Inr (organisms p), p, s\<lparr>trace := trace s @ [Progress_bar 0]\<rparr>)"
  by (simp add: run_generations_def)


section \<open>Running at least one generation\<close>

text \<open>The whole effect of \<^verbatim>\<open>run_generations\<close> for a positive count.\<close>

lemma run_generations_unfold:
  assumes "0 < n"
  shows "run_generations p n sp s =
     (case evaluate_all p (organisms p)
             ((if sp then s\<lparr>trace := trace s @ [Progress_bar n]\<rparr> else s)
                \<lparr>trace := trace (if sp then s\<lparr>trace := trace s @ [Progress_bar n]\<rparr> else s)
                           @ [Printed 0]\<rparr>) of
        (Inl e, s1) \<Rightarrow> (Inl e, p, s1)
      | (Inr gene_fitnesses, s1) \<Rightarrow>
          (case max_by_key snd gene_fitnesses of
             Inl e \<Rightarrow> (Inl e, p, s1)
           | Inr best \<Rightarrow> (Inl TypeError, track_best p best, s1)))"
proof -
  from assms have "[0 ..< nat n] = 0 # [Suc 0 ..< nat n]"
    by (simp add: upt_conv_Cons)
  then show ?thesis
    by (simp add: run_generations_def generation_unfold split: prod.splits sum.splits)
qed

lemmas run_defs =
  run_generations_unfold call_evaluate_def track_best_def

text \<open>Two successive calls on the population of the example.\<close>

theorem best_fitness_never_decreases_witness:
  "best_fitness (example_population 3 2 (1 / 2) [Gene ''Am'', Gene ''Amm'', Gene ''A''])
     = - float_1e99 \<and>
   best_fitness (fst (snd (run_generations
       (example_population 3 2 (1 / 2) [Gene ''Am'', Gene ''Amm'', Gene ''A''])
       1 False (example_env [])))) = 3 \<and>
   best_gene (fst (snd (run_generations
       (example_population 3 2 (1 / 2) [Gene ''Am'', Gene ''Amm'', Gene ''A''])
       1 False (example_env [])))) = Some (Gene ''Amm'') \<and>
   best_fitness (fst (snd (run_generations
       (fst (snd (run_generations
          (example_population 3 2 (1 / 2) [Gene ''Am'', Gene ''Amm'', Gene ''A''])
          1 False (example_env []))))
       1 False (example_env [])))) = 3 \<and>
   best_fitness (fst (snd (generation
       (example_population 3 2 (1 / 2) [Gene ''Am'', Gene ''Amm'', Gene ''A''])
       0 (example_env [])))) = 3"
proof -
  let ?p = "example_population 3 2 (1 / 2) [Gene ''Am'', Gene ''Amm'', Gene ''A'']"
  let ?s = "example_env []"
  let ?run1 = "run_generations ?p 1 False ?s"
  let ?run2 = "run_generations (fst (snd ?run1)) 1 False ?s"
  let ?gen = "generation ?p 0 ?s"
  have h1: "?run1 = (fst ?run1, fst (snd ?run1), snd (snd ?run1))"
    and h2: "?run2 = (fst ?run2, fst (snd ?run2), snd (snd ?run2))"
    and h3: "?gen = (fst ?gen, fst (snd ?gen), snd (snd ?gen))"
    by simp_all
  have v0: "best_fitness ?p = - float_1e99"
    by (simp add: example_population_def)
  have v1: "fst (snd ?run1) = ?p\<lparr>best_fitness := 3, best_gene := Some (Gene ''Amm'')\<rparr>"
    by (simp add: run_defs example_defs)
  have v2: "best_fitness (fst (snd ?run2)) = 3"
    unfolding v1 by (simp add: run_defs example_defs)
  have v3: "best_fitness (fst (snd ?gen)) = 3"
    by (simp add: generation_unfold run_defs example_defs)
  from best_fitness_never_decreases [OF h1 h2 h3]
  have "best_fitness ?p \<le> best_fitness (fst (snd ?run1)) \<and>
        best_fitness (fst (snd ?run1)) \<le> best_fitness (fst (snd ?run2))"
    by blast
  with v0 v1 v2 v3 show ?thesis by simp
qed

section \<open>Initialisation\<close>

lemma call_mutate_Inl:
  "call_mutate p g s = (Inl e, s') \<Longrightarrow>
     \<exists>x. e = Raised x \<and> mutator p g (world s) = (Inl x, world s') \<and>
         trace s' = trace s @ [Mutate_call g]"
  by (auto simp: call_mutate_def split: prod.splits sum.splits)

lemma mutate_times_Inl:
  "mutate_times p g n s = (Inl e, s') \<Longrightarrow> \<exists>x. e = Raised x"
proof (induction n arbitrary: s)
  case 0
  then show ?case by simp
next
  case (Suc n)
  then show ?case
    by (auto split: prod.splits sum.splits dest: call_mutate_Inl)
qed

text \<open>
  The calls of mutate in \<^verbatim>\<open>init_genes\<close> form a chain: call \<open>i\<close> runs in the world that
  call \<open>i - 1\<close> has left, and its result is organism \<open>i\<close>.
\<close>

lemma call_mutate_Inr_iff:
  "call_mutate p g s = (Inr c, s') \<longleftrightarrow>
     (\<exists>w. mutator p g (world s) = (Inr c, w) \<and>
          s' = s\<lparr>world := w, trace := trace s @ [Mutate_call g]\<rparr>)"
  by (auto simp: call_mutate_def split: prod.splits sum.splits)

lemma mutate_times_Inr_chain:
  "mutate_times p g n s = (Inr cs, s') \<Longrightarrow>
     \<exists>ws. length cs = n \<and> length ws = Suc n \<and> ws ! 0 = world s \<and>
       (\<forall>i<n. mutator p g (ws ! i) = (Inr (cs ! i), ws ! Suc i)) \<and>
       s' = s\<lparr>world := ws ! n, trace := trace s @ replicate n (Mutate_call g)\<rparr>"
proof (induction n arbitrary: s cs)
  case 0
  then have "cs = []" and "s' = s" by simp_all
  then have "length cs = 0 \<and> length [world s] = Suc 0 \<and> [world s] ! 0 = world s \<and>
       (\<forall>i<0. mutator p g ([world s] ! i) = (Inr (cs ! i), [world s] ! Suc i)) \<and>
       s' = s\<lparr>world := [world s] ! 0, trace := trace s @ replicate 0 (Mutate_call g)\<rparr>"
    by simp
  then show ?case by blast
next
  case (Suc n)
  from Suc.prems obtain c s1 cs1 where
    a: "call_mutate p g s = (Inr c, s1)" and
    b: "mutate_times p g n s1 = (Inr cs1, s')" and
    c: "cs = c # cs1"
    by (auto split: prod.splits sum.splits)
  from a obtain w where
    m: "mutator p g (world s) = (Inr c, w)" and
    s1: "s1 = s\<lparr>world := w, trace := trace s @ [Mutate_call g]\<rparr>"
    by (auto simp: call_mutate_Inr_iff)
  from Suc.IH [OF b] obtain ws1 where
    l1: "length cs1 = n" and l2: "length ws1 = Suc n" and w0: "ws1 ! 0 = world s1" and
    ch: "\<forall>i<n. mutator p g (ws1 ! i) = (Inr (cs1 ! i), ws1 ! Suc i)" and
    s': "s' = s1\<lparr>world := ws1 ! n, trace := trace s1 @ replicate n (Mutate_call g)\<rparr>"
    by blast
  let ?ws = "world s # ws1"
  have chain: "mutator p g (?ws ! i) = (Inr (cs ! i), ?ws ! Suc i)" if "i < Suc n" for i
  proof (cases i)
    case 0
    with m w0 s1 c show ?thesis by simp
  next
    case (Suc j)
    with that have "j < n" by simp
    with ch have "mutator p g (ws1 ! j) = (Inr (cs1 ! j), ws1 ! Suc j)" by blast
    with Suc c show ?thesis by simp
  qed
  have "s' = s\<lparr>world := ?ws ! Suc n, trace := trace s @ replicate (Suc n) (Mutate_call g)\<rparr>"
    by (simp add: s' s1 replicate_app_Cons_same)
  moreover have "length cs = Suc n" by (simp add: c l1)
  moreover have "length ?ws = Suc (Suc n)" by (simp add: l2)
  moreover have "?ws ! 0 = world s" by simp
  ultimately show ?case using chain by blast
qed

lemma mutate_times_chain_Inr:
  "length cs = n \<Longrightarrow> length ws = Suc n \<Longrightarrow> ws ! 0 = world s \<Longrightarrow>
   (\<forall>i<n. mutator p g (ws ! i) = (Inr (cs ! i), ws ! Suc i)) \<Longrightarrow>
   mutate_times p g n s =
     (Inr cs, s\<lparr>world := ws ! n, trace := trace s @ replicate n (Mutate_call g)\<rparr>)"
proof (induction n arbitrary: s cs ws)
  case 0
  then show ?case by simp
next
  case (Suc n)
  from Suc.prems(1) obtain c cs1 where cs: "cs = c # cs1" and l1: "length cs1 = n"
    by (cases cs) auto
  from Suc.prems(2) obtain w0 ws1 where ws: "ws = w0 # ws1" and l2: "length ws1 = Suc n"
    by (cases ws) auto
  from Suc.prems(3) ws have w0: "w0 = world s" by simp
  from Suc.prems(4) have "mutator p g (ws ! 0) = (Inr (cs ! 0), ws ! Suc 0)" by blast
  with ws cs w0 have m: "mutator p g (world s) = (Inr c, ws1 ! 0)" by simp
  let ?s1 = "s\<lparr>world := ws1 ! 0, trace := trace s @ [Mutate_call g]\<rparr>"
  from m have a: "call_mutate p g s = (Inr c, ?s1)"
    by (simp add: call_mutate_Inr_iff)
  have ch: "\<forall>i<n. mutator p g (ws1 ! i) = (Inr (cs1 ! i), ws1 ! Suc i)"
  proof (intro allI impI)
    fix i assume "i < n"
    then have "Suc i < Suc n" by simp
    with Suc.prems(4) have "mutator p g (ws ! Suc i) = (Inr (cs ! Suc i), ws ! Suc (Suc i))"
      by blast
    with ws cs show "mutator p g (ws1 ! i) = (Inr (cs1 ! i), ws1 ! Suc i)" by simp
  qed
  have "ws1 ! 0 = world ?s1" by simp
  from Suc.IH [OF l1 l2 this ch]
  have "mutate_times p g n ?s1 =
     (Inr cs1, ?s1\<lparr>world := ws1 ! n, trace := trace ?s1 @ replicate n (Mutate_call g)\<rparr>)" .
  with a show ?case
    by (simp add: cs ws replicate_app_Cons_same)
qed

text \<open>
  C9. \<^verbatim>\<open>init_genes\<close> returns exactly when \<open>num_organisms\<close> successive calls of mutate
  on the initial gene return (none for a count below 1), the first in the world as it is
  and each of the others in the world that the call before it has left. Then organism
  \<open>i\<close> is the result of call \<open>i\<close>, every call was made on the initial gene and on no
  other candidate, the organisms held before are replaced by these results, and nothing
  else of the population changes.
\<close>

theorem init_genes_mutates_seed:
  "init_genes p initial_gene s = (Inr p', s') \<longleftrightarrow>
     (\<exists>cs ws.
        length cs = nat (num_organisms p) \<and> length ws = Suc (length cs) \<and>
        ws ! 0 = world s \<and>
        (\<forall>i<length cs. mutator p initial_gene (ws ! i) = (Inr (cs ! i), ws ! Suc i)) \<and>
        p' = p\<lparr>organisms := cs\<rparr> \<and>
        s' = s\<lparr>world := ws ! length cs,
               trace := trace s @ replicate (length cs) (Mutate_call initial_gene)\<rparr>)"
proof
  assume "init_genes p initial_gene s = (Inr p', s')"
  then obtain cs where
    a: "mutate_times p initial_gene (nat (num_organisms p)) s = (Inr cs, s')" and
    b: "p' = p\<lparr>organisms := cs\<rparr>"
    by (auto simp: init_genes_def split: prod.splits sum.splits)
  from mutate_times_Inr_chain [OF a] obtain ws where
    "length cs = nat (num_organisms p)" and "length ws = Suc (nat (num_organisms p))" and
    "ws ! 0 = world s" and
    "\<forall>i<nat (num_organisms p). mutator p initial_gene (ws ! i) = (Inr (cs ! i), ws ! Suc i)" and
    "s' = s\<lparr>world := ws ! nat (num_organisms p),
             trace := trace s @ replicate (nat (num_organisms p)) (Mutate_call initial_gene)\<rparr>"
    by blast
  with b have "length cs = nat (num_organisms p) \<and> length ws = Suc (length cs) \<and>
        ws ! 0 = world s \<and>
        (\<forall>i<length cs. mutator p initial_gene (ws ! i) = (Inr (cs ! i), ws ! Suc i)) \<and>
        p' = p\<lparr>organisms := cs\<rparr> \<and>
        s' = s\<lparr>world := ws ! length cs,
               trace := trace s @ replicate (length cs) (Mutate_call initial_gene)\<rparr>"
    by simp
  then show "\<exists>cs ws.
        length cs = nat (num_organisms p) \<and> length ws = Suc (length cs) \<and>
        ws ! 0 = world s \<and>
        (\<forall>i<length cs. mutator p initial_gene (ws ! i) = (Inr (cs ! i), ws ! Suc i)) \<and>
        p' = p\<lparr>organisms := cs\<rparr> \<and>
        s' = s\<lparr>world := ws ! length cs,
               trace := trace s @ replicate (length cs) (Mutate_call initial_gene)\<rparr>"
    by blast
next
  assume "\<exists>cs ws.
        length cs = nat (num_organisms p) \<and> length ws = Suc (length cs) \<and>
        ws ! 0 = world s \<and>
        (\<forall>i<length cs. mutator p initial_gene (ws ! i) = (Inr (cs ! i), ws ! Suc i)) \<and>
        p' = p\<lparr>organisms := cs\<rparr> \<and>
        s' = s\<lparr>world := ws ! length cs,
               trace := trace s @ replicate (length cs) (Mutate_call initial_gene)\<rparr>"
  then obtain cs ws where
    l1: "length cs = nat (num_organisms p)" and l2: "length ws = Suc (length cs)" and
    w0: "ws ! 0 = world s" and
    ch: "\<forall>i<length cs. mutator p initial_gene (ws ! i) = (Inr (cs ! i), ws ! Suc i)" and
    p': "p' = p\<lparr>organisms := cs\<rparr>" and
    s': "s' = s\<lparr>world := ws ! length cs,
               trace := trace s @ replicate (length cs) (Mutate_call initial_gene)\<rparr>"
    by blast
  from mutate_times_chain_Inr [OF refl l2 w0 ch] l1 p' s'
  show "init_genes p initial_gene s = (Inr p', s')"
    by (simp add: init_genes_def)
qed


text \<open>
  Three organisms from the seed \<open>A\<close>, with a mutator whose result depends on the number
  of calls made before: the organisms differ, each the result of its own call.
\<close>

theorem init_genes_mutates_seed_witness:
  "counting_mutator (Gene ''A'') 0 = (Inr (Gene ''Am''), 1) \<and>
   counting_mutator (Gene ''A'') 1 = (Inr (Gene ''Amm''), 2) \<and>
   counting_mutator (Gene ''A'') 2 = (Inr (Gene ''Ammm''), 3) \<and>
   fst (init_genes ((example_population 3 2 (1 / 2) [Gene ''old''])\<lparr>mutator := counting_mutator\<rparr>)
          (Gene ''A'') (example_env []))
     = Inr ((example_population 3 2 (1 / 2) [Gene ''Am'', Gene ''Amm'', Gene ''Ammm''])
              \<lparr>mutator := counting_mutator\<rparr>) \<and>
   world (snd (init_genes
          ((example_population 3 2 (1 / 2) [Gene ''old''])\<lparr>mutator := counting_mutator\<rparr>)
          (Gene ''A'') (example_env []))) = 3 \<and>
   trace (snd (init_genes
          ((example_population 3 2 (1 / 2) [Gene ''old''])\<lparr>mutator := counting_mutator\<rparr>)
          (Gene ''A'') (example_env [])))
     = [Mutate_call (Gene ''A''), Mutate_call (Gene ''A''), Mutate_call (Gene ''A'')]"
proof -
  let ?p = "(example_population 3 2 (1 / 2) [Gene ''old''])\<lparr>mutator := counting_mutator\<rparr>"
  let ?s = "example_env []"
  let ?cs = "[Gene ''Am'', Gene ''Amm'', Gene ''Ammm'']"
  let ?ws = "[0, 1, 2, 3 :: nat]"
  have m0: "counting_mutator (Gene ''A'') 0 = (Inr (Gene ''Am''), 1)"
    and m1: "counting_mutator (Gene ''A'') 1 = (Inr (Gene ''Amm''), 2)"
    and m2: "counting_mutator (Gene ''A'') 2 = (Inr (Gene ''Ammm''), 3)"
    by (simp_all add: counting_mutator_def numeral_2_eq_2 numeral_3_eq_3)
  have l1: "length ?cs = nat (num_organisms ?p)"
    by (simp add: example_population_def)
  have l2: "length ?ws = Suc (length ?cs)" by simp
  have w0: "?ws ! 0 = world ?s" by (simp add: example_env_def)
  have ch: "\<forall>i<length ?cs. mutator ?p (Gene ''A'') (?ws ! i) = (Inr (?cs ! i), ?ws ! Suc i)"
  proof (intro allI impI)
    fix i :: nat assume "i < length ?cs"
    then have "i = 0 \<or> i = 1 \<or> i = 2" by auto
    with m0 m1 m2 show "mutator ?p (Gene ''A'') (?ws ! i) = (Inr (?cs ! i), ?ws ! Suc i)"
      by (auto simp: example_population_def numeral_2_eq_2)
  qed
  let ?p' = "?p\<lparr>organisms := ?cs\<rparr>"
  let ?s' = "?s\<lparr>world := ?ws ! length ?cs,
                 trace := trace ?s @ replicate (length ?cs) (Mutate_call (Gene ''A''))\<rparr>"
  from l1 l2 w0 ch have "\<exists>cs ws.
        length cs = nat (num_organisms ?p) \<and> length ws = Suc (length cs) \<and>
        ws ! 0 = world ?s \<and>
        (\<forall>i<length cs. mutator ?p (Gene ''A'') (ws ! i) = (Inr (cs ! i), ws ! Suc i)) \<and>
        ?p' = ?p\<lparr>organisms := cs\<rparr> \<and>
        ?s' = ?s\<lparr>world := ws ! length cs,
                 trace := trace ?s @ replicate (length cs) (Mutate_call (Gene ''A''))\<rparr>"
    by blast
  with init_genes_mutates_seed [of ?p "Gene ''A''" ?s ?p' ?s']
  have "init_genes ?p (Gene ''A'') ?s = (Inr ?p', ?s')" by blast
  then have "fst (init_genes ?p (Gene ''A'') ?s) = Inr ?p'"
    and "snd (init_genes ?p (Gene ''A'') ?s) = ?s'"
    by simp_all
  with m0 m1 m2 show ?thesis
    by (simp add: example_population_def example_env_def numeral_3_eq_3)
qed

section \<open>The check of the constructor\<close>

lemma init_genes_not_assertion:
  "fst (init_genes p g s) \<noteq> Inl AssertionError"
  by (auto simp: init_genes_def split: prod.splits sum.splits dest: mutate_times_Inl)

text \<open>
  C6, as the code has it. The constructor raises AssertionError exactly when
  \<open>top_k > num_organisms\<close>, and then before any strategy is called: the environment is
  as it was. It checks nothing else, and the mutation probability is not one of its
  arguments.
\<close>

theorem constructor_checks_topk_only:
  "(fst (Population_init n g ev mu br criteria k s) = Inl AssertionError \<longleftrightarrow> n < k) \<and>
   (n < k \<longrightarrow> snd (Population_init n g ev mu br criteria k s) = s)"
  by (simp add: Population_init_def init_genes_not_assertion)

text \<open>The scenario of the spec: three organisms, five survivors.\<close>

theorem constructor_checks_topk_only_witness:
  "(3 :: int) < 5 \<and>
   Population_init 3 (Gene ''A'') length_evaluator append_m_mutator concat_breeder ''topk'' 5
     (example_env []) = (Inl AssertionError, example_env [])"
proof -
  have h: "(3 :: int) < 5" by simp
  from constructor_checks_topk_only
         [of 3 "Gene ''A''" length_evaluator append_m_mutator concat_breeder "''topk''" 5
             "example_env []"] h
  show ?thesis by (simp add: prod_eq_iff)
qed

text \<open>
  C6, as the spec has it, fails: with \<open>top_k = 0\<close> the constructor returns a population,
  after three calls of mutate.
\<close>

theorem constructor_accepts_topk_zero:
  "fst (Population_init 3 (Gene ''A'') length_evaluator append_m_mutator concat_breeder ''topk'' 0
          (example_env []))
     = Inr (example_population 3 0 (1 / 2) [Gene ''Am'', Gene ''Am'', Gene ''Am'']) \<and>
   trace (snd (Population_init 3 (Gene ''A'') length_evaluator append_m_mutator concat_breeder
                 ''topk'' 0 (example_env [])))
     = [Mutate_call (Gene ''A''), Mutate_call (Gene ''A''), Mutate_call (Gene ''A'')]"
  by (simp add: Population_init_def init_genes_def mutate_times_unfold call_mutate_def example_defs)

section \<open>The steps of the refill loop\<close>

text \<open>
  What one pass of the loop body does: a mutation of an element of the current list, a
  breeding of the elements at two different positions of it, or an exception of
  \<^verbatim>\<open>random.choice\<close> or \<^verbatim>\<open>random.sample\<close> before any strategy is called.
\<close>

lemma sample_positions_distinct:
  assumes "2 \<le> n" and "sample_positions n a b = (i, j)"
  shows "i < n \<and> j < n \<and> i \<noteq> j"
proof -
  from assms(1) have "a mod n < n" and "b mod (n - 1) < n - 1"
    by simp_all
  with assms(2) show ?thesis
    by (auto simp: sample_positions_def Let_def split: if_splits)
qed

lemma random_random_frame:
  "trace (snd (random_random s)) = trace s \<and> world (snd (random_random s)) = world s"
  by (simp add: random_random_def)

lemma random_random_range:
  "0 \<le> fst (random_random s) \<and> fst (random_random s) < 1"
proof -
  have "tape s (cursor s) mod 2 ^ 53 < 2 ^ 53" by simp
  then have "real (tape s (cursor s) mod 2 ^ 53) < 2 ^ 53"
    by (metis of_nat_less_iff of_nat_numeral of_nat_power)
  then show ?thesis by (simp add: random_random_def)
qed

lemma refill_step_cases:
  assumes "refill_step p sg s = (r, s')"
  shows "(fst (random_random s) \<le> mutate_probability p \<and>
            (\<exists>i. i < length sg \<and> trace s' = trace s @ [Mutate_call (sg ! i)] \<and>
                 (\<forall>out. r = Inr out \<longrightarrow> (\<exists>child. out = sg @ [child])))) \<or>
         (mutate_probability p < fst (random_random s) \<and>
            (\<exists>i j. i < length sg \<and> j < length sg \<and> i \<noteq> j \<and>
                 trace s' = trace s @ [Breed_call (sg ! i) (sg ! j)] \<and>
                 (\<forall>out. r = Inr out \<longrightarrow> (\<exists>child. out = sg @ [child])))) \<or>
         (fst (random_random s) \<le> mutate_probability p \<and> sg = [] \<and>
            r = Inl IndexError \<and> trace s' = trace s \<and> world s' = world s) \<or>
         (mutate_probability p < fst (random_random s) \<and> length sg < 2 \<and>
            r = Inl ValueError \<and> trace s' = trace s \<and> world s' = world s)"
proof (cases "fst (random_random s) \<le> mutate_probability p")
  case True
  show ?thesis
  proof (cases "sg = []")
    case True
    with assms \<open>fst (random_random s) \<le> mutate_probability p\<close> show ?thesis
      by (auto simp: refill_step_def random_choice_def random_random_def
               split: prod.splits sum.splits if_splits)
  next
    case False
    let ?s1 = "snd (random_random s)"
    let ?i = "tape ?s1 (cursor ?s1) mod length sg"
    from False have i: "?i < length sg" by simp
    from False have ch: "random_choice sg ?s1 = (Inr (sg ! ?i), ?s1\<lparr>cursor := Suc (cursor ?s1)\<rparr>)"
      by (simp add: random_choice_def)
    from assms True ch have "trace s' = trace s @ [Mutate_call (sg ! ?i)] \<and>
        (\<forall>out. r = Inr out \<longrightarrow> (\<exists>child. out = sg @ [child]))"
      by (auto simp: refill_step_def call_mutate_def random_random_def
               split: prod.splits sum.splits if_splits)
    with i True show ?thesis by blast
  qed
next
  case False
  then have gt: "mutate_probability p < fst (random_random s)" by simp
  show ?thesis
  proof (cases "length sg < 2")
    case True
    with assms gt show ?thesis
      by (auto simp: refill_step_def random_sample_2_def random_random_def
               split: prod.splits sum.splits if_splits)
  next
    case False
    let ?s1 = "snd (random_random s)"
    obtain i j where sp:
      "sample_positions (length sg) (tape ?s1 (cursor ?s1)) (tape ?s1 (Suc (cursor ?s1))) = (i, j)"
      by (cases "sample_positions (length sg) (tape ?s1 (cursor ?s1)) (tape ?s1 (Suc (cursor ?s1)))")
        auto
    from False have "2 \<le> length sg" by simp
    from sample_positions_distinct [OF this sp]
    have ij: "i < length sg \<and> j < length sg \<and> i \<noteq> j" .
    from False sp have sa:
      "random_sample_2 sg ?s1 = (Inr (sg ! i, sg ! j), ?s1\<lparr>cursor := cursor ?s1 + 2\<rparr>)"
      by (simp add: random_sample_2_def)
    from assms gt sa have "trace s' = trace s @ [Breed_call (sg ! i) (sg ! j)] \<and>
        (\<forall>out. r = Inr out \<longrightarrow> (\<exists>child. out = sg @ [child]))"
      by (auto simp: refill_step_def call_breed_def random_random_def
               split: prod.splits sum.splits if_splits)
    with ij gt show ?thesis by blast
  qed
qed


lemma refill_step_Inr:
  assumes "refill_step p sg s = (Inr sg1, s1)"
  shows "\<exists>child ev. sg1 = sg @ [child] \<and> trace s1 = trace s @ [ev] \<and>
           ((\<exists>i. i < length sg \<and> ev = Mutate_call (sg ! i)) \<or>
            (\<exists>i j. i < length sg \<and> j < length sg \<and> i \<noteq> j \<and> ev = Breed_call (sg ! i) (sg ! j)))"
  using refill_step_cases [OF assms] by auto

text \<open>
  \<^verbatim>\<open>random.choice\<close> and \<^verbatim>\<open>random.sample\<close> are applied to the list that the loop appends
  to. So when the loop returns, the result is the list it started from followed by one
  child per step, and step \<open>k\<close> made one call: a mutation of an element, or a breeding
  of the elements at two different positions, among the first \<open>length sg + k\<close> elements
  of the result.
\<close>


lemma refill_loop_draws_from_growing_list:
  assumes "refill_loop p n sg s = (Inr out, s')"
  shows "\<exists>children evs.
           out = sg @ children \<and> length children = n \<and>
           trace s' = trace s @ evs \<and> length evs = n \<and>
           (\<forall>k<n. (\<exists>i. i < length sg + k \<and> evs ! k = Mutate_call (out ! i)) \<or>
                  (\<exists>i j. i < length sg + k \<and> j < length sg + k \<and> i \<noteq> j \<and>
                         evs ! k = Breed_call (out ! i) (out ! j)))"
  using assms
proof (induction n arbitrary: sg s)
  case 0
  then show ?case by simp
next
  case (Suc n)
  from Suc.prems obtain sg1 s1 where
    step: "refill_step p sg s = (Inr sg1, s1)" and
    loop: "refill_loop p n sg1 s1 = (Inr out, s')"
    by (auto split: prod.splits sum.splits)
  from refill_step_Inr [OF step] obtain child ev where
    sg1: "sg1 = sg @ [child]" and tr1: "trace s1 = trace s @ [ev]" and
    ev: "(\<exists>i. i < length sg \<and> ev = Mutate_call (sg ! i)) \<or>
         (\<exists>i j. i < length sg \<and> j < length sg \<and> i \<noteq> j \<and> ev = Breed_call (sg ! i) (sg ! j))"
    by blast
  from Suc.IH [OF loop] obtain children evs where
    out: "out = sg1 @ children" and lc: "length children = n" and
    tr: "trace s' = trace s1 @ evs" and le: "length evs = n" and
    later: "\<forall>k<n. (\<exists>i. i < length sg1 + k \<and> evs ! k = Mutate_call (out ! i)) \<or>
                  (\<exists>i j. i < length sg1 + k \<and> j < length sg1 + k \<and> i \<noteq> j \<and>
                         evs ! k = Breed_call (out ! i) (out ! j))"
    by blast
  have pre: "out ! i = sg ! i" if "i < length sg" for i
    using that by (simp add: out sg1 nth_append)
  have first: "(\<exists>i. i < length sg \<and> ev = Mutate_call (out ! i)) \<or>
         (\<exists>i j. i < length sg \<and> j < length sg \<and> i \<noteq> j \<and> ev = Breed_call (out ! i) (out ! j))"
    using ev pre by metis
  have all: "(\<exists>i. i < length sg + k \<and> (ev # evs) ! k = Mutate_call (out ! i)) \<or>
             (\<exists>i j. i < length sg + k \<and> j < length sg + k \<and> i \<noteq> j \<and>
                    (ev # evs) ! k = Breed_call (out ! i) (out ! j))"
    if "k < Suc n" for k
  proof (cases k)
    case 0
    with first show ?thesis by simp
  next
    case (Suc k')
    with that have "k' < n" by simp
    with later have "(\<exists>i. i < length sg1 + k' \<and> evs ! k' = Mutate_call (out ! i)) \<or>
                  (\<exists>i j. i < length sg1 + k' \<and> j < length sg1 + k' \<and> i \<noteq> j \<and>
                         evs ! k' = Breed_call (out ! i) (out ! j))"
      by blast
    moreover have "length sg1 + k' = length sg + k"
      by (simp add: sg1 Suc)
    ultimately show ?thesis by (simp add: Suc)
  qed
  have "out = sg @ (child # children)" by (simp add: out sg1)
  moreover have "length (child # children) = Suc n" by (simp add: lc)
  moreover have "trace s' = trace s @ (ev # evs)" by (simp add: tr tr1)
  moreover have "length (ev # evs) = Suc n" by (simp add: le)
  ultimately show ?case using all by blast
qed


subsection \<open>Breeding with fewer than two genes\<close>

text \<open>
  The breeding branch is not guarded: on a list of fewer than two genes
  \<^verbatim>\<open>random.sample\<close> raises ValueError, before breed is called.
\<close>


lemma refill_step_needs_two_genes:
  assumes "length sg < 2" and "mutate_probability p < fst (random_random s)"
  shows "fst (refill_step p sg s) = Inl ValueError \<and>
         trace (snd (refill_step p sg s)) = trace s \<and>
         world (snd (refill_step p sg s)) = world s \<and>
         (0 < n \<longrightarrow> fst (refill_loop p n sg s) = Inl ValueError)"
proof -
  have "refill_step p sg s = (fst (refill_step p sg s), snd (refill_step p sg s))"
    by simp
  from refill_step_cases [OF this] assms
  have step: "fst (refill_step p sg s) = Inl ValueError \<and>
         trace (snd (refill_step p sg s)) = trace s \<and>
         world (snd (refill_step p sg s)) = world s"
    by auto
  have "fst (refill_loop p n sg s) = Inl ValueError" if "0 < n"
    using that step by (cases "refill_step p sg s") (simp add: refill_loop_unfold)
  with step show ?thesis by blast
qed

subsection \<open>The choice between mutation and breeding\<close>

lemma refill_step_probability_one:
  assumes "mutate_probability p = 1" and "refill_step p sg s = (r, s')"
  shows "trace s' = trace s \<or> (\<exists>g. trace s' = trace s @ [Mutate_call g])"
  using refill_step_cases [OF assms(2)] random_random_range [of s] assms(1) by auto

lemma refill_loop_probability_one:
  assumes "mutate_probability p = 1"
  shows "refill_loop p n sg s = (r, s') \<Longrightarrow> \<exists>gs. trace s' = trace s @ map Mutate_call gs"
proof (induction n arbitrary: sg s)
  case 0
  then show ?case by simp
next
  case (Suc n)
  obtain r1 s1 where step: "refill_step p sg s = (r1, s1)"
    by (cases "refill_step p sg s") auto
  from refill_step_probability_one [OF assms step]
  obtain gs1 where t1: "trace s1 = trace s @ map Mutate_call gs1"
    by (metis append_Nil2 list.simps(8) list.simps(9))
  show ?case
  proof (cases r1)
    case (Inl e)
    with Suc.prems step have "s' = s1" by simp
    with t1 show ?thesis by blast
  next
    case (Inr sg1)
    with Suc.prems step have "refill_loop p n sg1 s1 = (r, s')" by simp
    from Suc.IH [OF this] obtain gs2 where "trace s' = trace s1 @ map Mutate_call gs2"
      by blast
    with t1 have "trace s' = trace s @ map Mutate_call (gs1 @ gs2)" by simp
    then show ?thesis by blast
  qed
qed

lemma refill_step_probability_zero:
  assumes "mutate_probability p = 0" and "fst (random_random s) \<noteq> 0"
    and "2 \<le> length sg" and "refill_step p sg s = (r, s')"
  shows "\<exists>a b. trace s' = trace s @ [Breed_call a b]"
  using refill_step_cases [OF assms(4)] random_random_range [of s] assms(1,2,3) by auto

text \<open>
  The test of the loop body is \<^verbatim>\<open>random.random() <= self.mutate_probability\<close>: at the
  draw 0.0 the body mutates, whatever the probability is.
\<close>


lemma refill_step_at_draw_zero:
  "mutate_probability (example_population 3 2 0 []) = 0 \<and>
   fst (random_random (example_env [])) = 0 \<and>
   fst (refill_step (example_population 3 2 0 []) [Gene ''A'', Gene ''B''] (example_env []))
     = Inr [Gene ''A'', Gene ''B'', Gene ''Am''] \<and>
   trace (snd (refill_step (example_population 3 2 0 []) [Gene ''A'', Gene ''B''] (example_env [])))
     = [Mutate_call (Gene ''A'')]"
  by (simp add: step_defs example_defs)

subsection \<open>Exceptions in the loop\<close>

text \<open>
  An exception of mutate or breed leaves the step as it is, and the loop at that step.
\<close>

lemma refill_step_mutate_raises:
  assumes "fst (random_random s) \<le> mutate_probability p"
    and "random_choice sg (snd (random_random s)) = (Inr g, s2)"
    and "mutator p g (world s2) = (Inl x, w)"
  shows "refill_step p sg s
           = (Inl (Raised x), s2\<lparr>world := w, trace := trace s2 @ [Mutate_call g]\<rparr>)"
  using assms
  by (cases "random_random s") (simp add: refill_step_def call_mutate_def)

lemma refill_step_breed_raises:
  assumes "mutate_probability p < fst (random_random s)"
    and "random_sample_2 sg (snd (random_random s)) = (Inr (a, b), s2)"
    and "breeder p a b (world s2) = (Inl x, w)"
  shows "refill_step p sg s
           = (Inl (Raised x), s2\<lparr>world := w, trace := trace s2 @ [Breed_call a b]\<rparr>)"
  using assms
  by (cases "random_random s") (simp add: refill_step_def call_breed_def)

lemma refill_loop_stops_at_failure:
  "refill_loop p k sg s = (Inr sg_k, s_k) \<Longrightarrow> refill_step p sg_k s_k = (Inl e, s') \<Longrightarrow>
     refill_loop p (k + Suc m) sg s = (Inl e, s')"
proof (induction k arbitrary: sg s)
  case 0
  then show ?case by simp
next
  case (Suc k)
  from Suc.prems(1) obtain sg1 s1 where
    step: "refill_step p sg s = (Inr sg1, s1)" and
    loop: "refill_loop p k sg1 s1 = (Inr sg_k, s_k)"
    by (auto split: prod.splits sum.splits)
  from Suc.IH [OF loop Suc.prems(2)] step show ?case by simp
qed

section \<open>What a call of \<^verbatim>\<open>run_generations\<close> can do\<close>








text \<open>
  C5. With one survivor and \<^verbatim>\<open>mutate_probability = 0.0\<close> the run should end with an
  error of its own for the missing second parent, or fall back. In the code it ends with
  the TypeError of \<^verbatim>\<open>list.sort\<close>, before any attempt to breed.
\<close>

theorem one_survivor_run_raises_TypeError:
  "fst (run_generations (example_population 3 1 0 [Gene ''Am'', Gene ''Amm'', Gene ''A''])
          1 False (example_env [1]))
     = Inl TypeError \<and>
   trace (snd (snd (run_generations
          (example_population 3 1 0 [Gene ''Am'', Gene ''Amm'', Gene ''A''])
          1 False (example_env [1]))))
     = [Printed 0, Evaluate_call (Gene ''Am''), Evaluate_call (Gene ''Amm''),
        Evaluate_call (Gene ''A'')]"
  by (simp add: run_defs example_defs)

section \<open>Failures of the strategies\<close>





end
